theory Spec2Isabelle
  imports Main "HOL-Library.Multiset"
begin

section \<open>The Master-Worker example of the mpi4py chapter\<close>

text \<open>
  The repository is a tutorial book on distributed Python. Its program with behaviour of
  its own is the Master-Worker script of the MPI chapter:
  \<^verbatim>\<open>
  comm = MPI.COMM_WORLD
  rank = comm.Get_rank()
  size = comm.Get_size()

  if rank < size - 1:
      np.random.seed(rank)
      data_count = np.random.randint(100)
      data = np.random.randint(100, size=data_count)
      comm.send(data, dest=size - 1)
      print(f"Worker: worker ID: {rank}; count: {len(data)}")
  else:
      for i in range(size - 1):
          status = MPI.Status()
          data = comm.recv(source=MPI.ANY_SOURCE, status=status)
          print(f"Master: worker ID: {status.Get_source()}; count: {len(data)}")

  comm.Barrier()
  \<close>
  It is run as \<open>size\<close> processes, each executing the whole script with its own
  \<open>rank\<close>. The model is an interleaving semantics: one step function that advances one
  process by one statement, driven by a schedule that says which process moves next and,
  for a receive from \<open>ANY_SOURCE\<close>, which sender is matched.
\<close>

subsection \<open>NumPy's generator and the MPI library as parameters\<close>

text \<open>
  NumPy's legacy generator is a library outside the repository. It enters as three
  operations on an abstract generator state \<open>'g\<close>: \<open>np.random.seed(n)\<close> replaces the
  process-global state, \<open>np.random.randint(high)\<close> draws one number below \<open>high\<close>,
  \<open>np.random.randint(high, size=n)\<close> draws an array. Whether \<open>comm.send\<close> returns before
  the matching receive (a buffered send) or only after it (a rendezvous) is the MPI
  library's choice and may depend on the message: \<open>eager_send\<close> says which.
\<close>

record 'g env =
  comm_size :: nat
  eager_send :: "nat list \<Rightarrow> bool"
  np_seed :: "nat \<Rightarrow> 'g"
  np_randint :: "nat \<Rightarrow> 'g \<Rightarrow> nat \<times> 'g"
  np_randint_size :: "nat \<Rightarrow> nat \<Rightarrow> 'g \<Rightarrow> nat list \<times> 'g"

subsection \<open>Processes and the world\<close>

datatype label =
    L_if | W_seed | W_count | W_data | W_send | W_sending | W_print
  | M_for | M_recv | M_print | L_barrier | L_done

datatype line = Worker_line nat nat | Master_line nat nat

text \<open>
  The variables of one process. \<open>loop_i\<close> counts the iterations of the master's loop that
  are complete; \<open>status_source\<close> is what \<open>status.Get_source()\<close> returns. The last three
  fields record what the process did: every message it passed to \<open>comm.send\<close> (with its
  destination), every message \<open>comm.recv\<close> returned to it (with its source), every line it
  printed.
\<close>

record 'g proc =
  pc :: label
  rng :: 'g
  data_count :: nat
  data :: "nat list"
  loop_i :: nat
  status_source :: nat
  sent :: "(nat \<times> nat list) list"
  received :: "(nat \<times> nat list) list"
  out :: "line list"

type_synonym message = "nat \<times> nat \<times> nat list"

definition msg_src :: "message \<Rightarrow> nat" where
  "msg_src m = fst m"

definition msg_dst :: "message \<Rightarrow> nat" where
  "msg_dst m = fst (snd m)"

definition msg_payload :: "message \<Rightarrow> nat list" where
  "msg_payload m = snd (snd m)"

text \<open>\<open>net\<close> holds the messages that were sent and not yet received, oldest first.\<close>

record 'g world =
  procs :: "'g proc list"
  net :: "message list"

definition proc0 :: "'g \<Rightarrow> 'g proc" where
  "proc0 g = \<lparr>pc = L_if, rng = g, data_count = 0, data = [], loop_i = 0,
     status_source = 0, sent = [], received = [], out = []\<rparr>"

text \<open>Every process starts at the top of the script; \<open>g0 r\<close> is the state in which
  NumPy's generator of process \<open>r\<close> happens to start.\<close>

definition init :: "'g env \<Rightarrow> (nat \<Rightarrow> 'g) \<Rightarrow> 'g world" where
  "init e g0 = \<lparr>procs = map (\<lambda>r. proc0 (g0 r)) [0..<comm_size e], net = []\<rparr>"

definition at_barrier :: "'g proc \<Rightarrow> bool" where
  "at_barrier p = (pc p = L_barrier \<or> pc p = L_done)"

subsection \<open>One statement of one process\<close>

text \<open>
  \<open>stmt e r s arrived nt p\<close> executes the next statement of the process with rank \<open>r\<close>,
  whose variables are \<open>p\<close>, when the messages in flight are \<open>nt\<close>; it returns the new
  variables and the new messages in flight, or \<open>None\<close> when the process cannot move (it
  is blocked or it has finished). \<open>arrived\<close> says whether every process has reached the
  barrier. A receive from \<open>ANY_SOURCE\<close> matches the oldest message in flight from the
  sender \<open>s\<close> that the schedule picked, so two messages of one sender cannot overtake
  each other.
\<close>

definition stmt ::
  "'g env \<Rightarrow> nat \<Rightarrow> nat \<Rightarrow> bool \<Rightarrow> message list \<Rightarrow> 'g proc \<Rightarrow> ('g proc \<times> message list) option"
where
  "stmt e r s arrived nt p =
    (case pc p of
       L_if \<Rightarrow>
         Some (p\<lparr>pc := (if r < comm_size e - 1 then W_seed else M_for)\<rparr>, nt)
     | W_seed \<Rightarrow>
         Some (p\<lparr>rng := np_seed e r, pc := W_count\<rparr>, nt)
     | W_count \<Rightarrow>
         (let (n, g) = np_randint e 100 (rng p)
          in Some (p\<lparr>data_count := n, rng := g, pc := W_data\<rparr>, nt))
     | W_data \<Rightarrow>
         (let (d, g) = np_randint_size e 100 (data_count p) (rng p)
          in Some (p\<lparr>data := d, rng := g, pc := W_send\<rparr>, nt))
     | W_send \<Rightarrow>
         Some (p\<lparr>sent := sent p @ [(comm_size e - 1, data p)], pc := W_sending\<rparr>,
               nt @ [(r, comm_size e - 1, data p)])
     | W_sending \<Rightarrow>
         (if eager_send e (data p) \<or> (\<forall>m \<in> set nt. msg_src m \<noteq> r)
          then Some (p\<lparr>pc := W_print\<rparr>, nt)
          else None)
     | W_print \<Rightarrow>
         Some (p\<lparr>out := out p @ [Worker_line r (length (data p))], pc := L_barrier\<rparr>, nt)
     | M_for \<Rightarrow>
         Some (p\<lparr>pc := (if loop_i p < comm_size e - 1 then M_recv else L_barrier)\<rparr>, nt)
     | M_recv \<Rightarrow>
         (case find (\<lambda>m. msg_src m = s \<and> msg_dst m = r) nt of
            None \<Rightarrow> None
          | Some m \<Rightarrow>
              Some (p\<lparr>data := msg_payload m, status_source := msg_src m,
                      received := received p @ [(msg_src m, msg_payload m)],
                      pc := M_print\<rparr>,
                    remove1 m nt))
     | M_print \<Rightarrow>
         Some (p\<lparr>out := out p @ [Master_line (status_source p) (length (data p))],
                 loop_i := loop_i p + 1, pc := M_for\<rparr>, nt)
     | L_barrier \<Rightarrow>
         (if arrived then Some (p\<lparr>pc := L_done\<rparr>, nt) else None)
     | L_done \<Rightarrow> None)"

subsection \<open>Runs\<close>

text \<open>
  A schedule entry \<open>(r, s)\<close> lets the process with rank \<open>r\<close> execute one statement
  (\<open>s\<close> matters only when that statement is the receive). There is no step for a rank
  that does not exist.
\<close>

definition step :: "'g env \<Rightarrow> nat \<times> nat \<Rightarrow> 'g world \<Rightarrow> 'g world option" where
  "step e c w =
    (let r = fst c; s = snd c in
     if comm_size e \<le> r \<or> length (procs w) \<le> r then None
     else
       case stmt e r s (list_all at_barrier (procs w)) (net w) (procs w ! r) of
         None \<Rightarrow> None
       | Some (p', nt') \<Rightarrow> Some (w\<lparr>procs := (procs w)[r := p'], net := nt'\<rparr>))"

text \<open>A schedule is run from left to right; it is a run only if every step can move.\<close>

fun exec :: "'g env \<Rightarrow> (nat \<times> nat) list \<Rightarrow> 'g world \<Rightarrow> 'g world option" where
  "exec e [] w = Some w"
| "exec e (c # cs) w = (case step e c w of None \<Rightarrow> None | Some w' \<Rightarrow> exec e cs w')"

definition finished :: "'g world \<Rightarrow> bool" where
  "finished w = list_all (\<lambda>p. pc p = L_done) (procs w)"

text \<open>What worker \<open>r\<close> computes between the seeding and the send.\<close>

definition worker_data :: "'g env \<Rightarrow> nat \<Rightarrow> nat list" where
  "worker_data e r =
    (let (n, g) = np_randint e 100 (np_seed e r)
     in fst (np_randint_size e 100 n g))"

section \<open>Invariant and termination measure\<close>

text \<open>
  The invariant of the reachable worlds says, for every worker, what its variables and its
  records hold at each statement (\<open>worker_ok\<close>); the same for the master
  (\<open>master_ok\<close>); that the messages in flight together with the messages the master
  has received are exactly the messages of the workers that have executed their send
  (\<open>net_ok\<close>); and that no process leaves the barrier before all have reached it
  (\<open>done_ok\<close>). \<open>remaining\<close> bounds the number of statements a process still has
  to execute; it decreases with every step, which makes every run finite.
\<close>

definition has_sent :: "'g proc \<Rightarrow> bool" where
  "has_sent p = (pc p = W_sending \<or> pc p = W_print \<or> pc p = L_barrier \<or> pc p = L_done)"

definition master_line :: "nat \<times> nat list \<Rightarrow> line" where
  "master_line x = Master_line (fst x) (length (snd x))"

definition worker_ok :: "'g env \<Rightarrow> nat \<Rightarrow> 'g proc \<Rightarrow> bool" where
  "worker_ok e r p =
    (received p = [] \<and>
     (has_sent p \<longrightarrow> sent p = [(comm_size e - 1, worker_data e r)]) \<and>
     (\<not> has_sent p \<longrightarrow> sent p = []) \<and>
     (at_barrier p \<longrightarrow> out p = [Worker_line r (length (worker_data e r))]) \<and>
     (\<not> at_barrier p \<longrightarrow> out p = []) \<and>
     (case pc p of
        L_if \<Rightarrow> True
      | W_seed \<Rightarrow> True
      | W_count \<Rightarrow> rng p = np_seed e r
      | W_data \<Rightarrow> (data_count p, rng p) = np_randint e 100 (np_seed e r)
      | W_send \<Rightarrow> data p = worker_data e r
      | W_sending \<Rightarrow> data p = worker_data e r
      | W_print \<Rightarrow> data p = worker_data e r
      | L_barrier \<Rightarrow> data p = worker_data e r
      | L_done \<Rightarrow> data p = worker_data e r
      | _ \<Rightarrow> False))"

definition master_ok :: "'g env \<Rightarrow> 'g proc \<Rightarrow> bool" where
  "master_ok e p =
    (sent p = [] \<and>
     (case pc p of
        L_if \<Rightarrow> received p = [] \<and> out p = [] \<and> loop_i p = 0
      | M_for \<Rightarrow> length (received p) = loop_i p \<and> loop_i p \<le> comm_size e - 1 \<and>
          out p = map master_line (received p)
      | M_recv \<Rightarrow> length (received p) = loop_i p \<and> loop_i p < comm_size e - 1 \<and>
          out p = map master_line (received p)
      | M_print \<Rightarrow> length (received p) = loop_i p + 1 \<and> loop_i p < comm_size e - 1 \<and>
          out p @ [Master_line (status_source p) (length (data p))] = map master_line (received p)
      | L_barrier \<Rightarrow> length (received p) = comm_size e - 1 \<and>
          out p = map master_line (received p)
      | L_done \<Rightarrow> length (received p) = comm_size e - 1 \<and>
          out p = map master_line (received p)
      | _ \<Rightarrow> False))"

definition senders :: "'g env \<Rightarrow> 'g world \<Rightarrow> nat set" where
  "senders e w = {r. r < comm_size e - 1 \<and> has_sent (procs w ! r)}"

definition net_ok :: "'g env \<Rightarrow> 'g world \<Rightarrow> bool" where
  "net_ok e w =
    (mset (net w) +
       image_mset (\<lambda>x. (fst x, comm_size e - 1, snd x))
         (mset (received (procs w ! (comm_size e - 1)))) =
     image_mset (\<lambda>r. (r, comm_size e - 1, worker_data e r)) (mset_set (senders e w)))"

definition done_ok :: "'g world \<Rightarrow> bool" where
  "done_ok w = ((\<exists>p \<in> set (procs w). pc p = L_done) \<longrightarrow> list_all at_barrier (procs w))"

definition inv :: "'g env \<Rightarrow> 'g world \<Rightarrow> bool" where
  "inv e w =
    (length (procs w) = comm_size e \<and>
     (\<forall>r < comm_size e - 1. worker_ok e r (procs w ! r)) \<and>
     master_ok e (procs w ! (comm_size e - 1)) \<and>
     net_ok e w \<and> done_ok w)"

definition remaining :: "'g env \<Rightarrow> 'g proc \<Rightarrow> nat" where
  "remaining e p =
    (case pc p of
       L_if \<Rightarrow> 3 * (comm_size e - 1) + 9
     | W_seed \<Rightarrow> 7 | W_count \<Rightarrow> 6 | W_data \<Rightarrow> 5 | W_send \<Rightarrow> 4 | W_sending \<Rightarrow> 3
     | W_print \<Rightarrow> 2
     | M_for \<Rightarrow> 3 * (comm_size e - 1 - loop_i p) + 2
     | M_recv \<Rightarrow> 3 * (comm_size e - 1 - Suc (loop_i p)) + 4
     | M_print \<Rightarrow> 3 * (comm_size e - 1 - Suc (loop_i p)) + 3
     | L_barrier \<Rightarrow> 1
     | L_done \<Rightarrow> 0)"

definition total :: "'g env \<Rightarrow> 'g world \<Rightarrow> nat" where
  "total e w = sum_list (map (remaining e) (procs w))"

section \<open>A concrete world of three processes\<close>

text \<open>
  A small generator stands in for NumPy's, so that runs can be evaluated: seeding with
  \<open>n\<close> gives the state \<open>n + 1\<close>, a draw advances the state by one. Worker 0 then
  generates two numbers and worker 1 three. Messages shorter than three numbers are
  buffered, so the send of worker 1 is a rendezvous. \<open>example_sched1\<close> and
  \<open>example_sched2\<close> are two complete schedules; in the first the master receives from
  worker 1 first, in the second from worker 0. \<open>example_end1\<close> and \<open>example_end2\<close>
  are the worlds in which they end, from different initial generator states.
\<close>

definition example_env :: "nat env" where
  "example_env = \<lparr>comm_size = 3, eager_send = (\<lambda>d. length d < 3),
     np_seed = (\<lambda>n. n + 1),
     np_randint = (\<lambda>h g. (g mod 3 + 1, g + 1)),
     np_randint_size = (\<lambda>h n g. (map (\<lambda>k. (g * 13 + k * 5) mod h) [0..<n], g + n))\<rparr>"

definition example_sched1 :: "(nat \<times> nat) list" where
  "example_sched1 = [(2,0),(2,0),(1,0),(1,0),(1,0),(1,0),(1,0),(0,0),(0,0),(0,0),(0,0),(0,0),(0,0),(0,0),
    (2,1),(2,0),(2,0),(1,0),(1,0),(2,0),(2,0),(2,0),(2,0),(0,0),(1,0)]"

definition example_sched2 :: "(nat \<times> nat) list" where
  "example_sched2 = [(0,0),(0,0),(0,0),(0,0),(0,0),(0,0),(0,0),(2,0),(2,0),(2,0),(2,0),(2,0),
     (1,0),(1,0),(1,0),(1,0),(1,0),(2,1),(2,1),(2,1),(1,0),(1,0),(2,0),(0,0),(1,0)]"

definition example_end1 :: "nat world" where
  "example_end1 =
    \<lparr>procs =
       [\<lparr>pc = L_done, rng = 4, data_count = 2, data = [26, 31], loop_i = 0,
          status_source = 0, sent = [(2, [26, 31])], received = [],
          out = [Worker_line 0 2]\<rparr>,
        \<lparr>pc = L_done, rng = 6, data_count = 3, data = [39, 44, 49], loop_i = 0,
          status_source = 0, sent = [(2, [39, 44, 49])], received = [],
          out = [Worker_line 1 3]\<rparr>,
        \<lparr>pc = L_done, rng = 42, data_count = 0, data = [26, 31], loop_i = 2,
          status_source = 0, sent = [],
          received = [(1, [39, 44, 49]), (0, [26, 31])],
          out = [Master_line 1 3, Master_line 0 2]\<rparr>],
     net = []\<rparr>"

definition example_end2 :: "nat world" where
  "example_end2 =
    \<lparr>procs =
       [\<lparr>pc = L_done, rng = 4, data_count = 2, data = [26, 31], loop_i = 0,
          status_source = 0, sent = [(2, [26, 31])], received = [],
          out = [Worker_line 0 2]\<rparr>,
        \<lparr>pc = L_done, rng = 6, data_count = 3, data = [39, 44, 49], loop_i = 0,
          status_source = 0, sent = [(2, [39, 44, 49])], received = [],
          out = [Worker_line 1 3]\<rparr>,
        \<lparr>pc = L_done, rng = 7, data_count = 0, data = [39, 44, 49], loop_i = 2,
          status_source = 1, sent = [],
          received = [(0, [26, 31]), (1, [39, 44, 49])],
          out = [Master_line 0 2, Master_line 1 3]\<rparr>],
     net = []\<rparr>"

section \<open>Proofs\<close>

subsection \<open>One statement preserves the invariant of its process\<close>

lemma step_elim:
  assumes "step e c w = Some w'"
  obtains p' where "fst c < comm_size e" and "fst c < length (procs w)"
    and "stmt e (fst c) (snd c) (list_all at_barrier (procs w)) (net w) (procs w ! fst c)
          = Some (p', net w')"
    and "procs w' = (procs w)[fst c := p']"
  using assms unfolding step_def
  by (auto simp: Let_def split: if_splits option.splits)

lemma stmt_worker_ok:
  assumes "stmt e r s a nt p = Some (p', nt')" and "r < comm_size e - 1"
    and "worker_ok e r p"
  shows "worker_ok e r p'"
  by (cases "pc p")
    (use assms in \<open>auto simp: stmt_def worker_ok_def has_sent_def at_barrier_def worker_data_def
       split: if_splits prod.splits option.splits\<close>)

lemma stmt_master_ok:
  assumes "stmt e r s a nt p = Some (p', nt')" and "r = comm_size e - 1"
    and "master_ok e p"
  shows "master_ok e p'"
  by (cases "pc p")
    (use assms in \<open>auto simp: stmt_def master_ok_def master_line_def
       split: if_splits prod.splits option.splits\<close>)

lemma stmt_worker_net:
  assumes "stmt e r s a nt p = Some (p', nt')" and "worker_ok e r p"
  shows "received p' = received p \<and>
    (if pc p = W_send
     then nt' = nt @ [(r, comm_size e - 1, worker_data e r)] \<and> \<not> has_sent p \<and> has_sent p'
     else nt' = nt \<and> has_sent p' = has_sent p)"
  by (cases "pc p")
    (use assms in \<open>auto simp: stmt_def worker_ok_def has_sent_def
       split: if_splits prod.splits option.splits\<close>)

lemma stmt_master_net:
  assumes "stmt e r s a nt p = Some (p', nt')" and "master_ok e p"
  shows "if pc p = M_recv
     then \<exists>m \<in> set nt. msg_dst m = r \<and> nt' = remove1 m nt \<and>
            received p' = received p @ [(msg_src m, msg_payload m)]
     else nt' = nt \<and> received p' = received p"
  by (cases "pc p")
    (use assms in \<open>auto simp: stmt_def master_ok_def find_Some_iff
       split: if_splits prod.splits option.splits\<close>)

lemma stmt_barrier:
  assumes "stmt e r s a nt p = Some (p', nt')"
  shows "(at_barrier p \<longrightarrow> a \<and> at_barrier p') \<and> (pc p' = L_done \<longrightarrow> a)"
  by (cases "pc p")
    (use assms in \<open>auto simp: stmt_def at_barrier_def
       split: if_splits prod.splits option.splits\<close>)

lemma stmt_remaining:
  assumes "stmt e r s a nt p = Some (p', nt')"
  shows "remaining e p' < remaining e p"
  by (cases "pc p")
    (use assms in \<open>auto simp: stmt_def remaining_def
       split: if_splits prod.splits option.splits\<close>)

subsection \<open>One step preserves the invariant of the world\<close>

lemma finite_senders: "finite (senders e w)"
  unfolding senders_def by simp

lemma step_nth:
  assumes "procs w' = (procs w)[r := p']" and "r < length (procs w)"
  shows "procs w' ! q = (if q = r then p' else procs w ! q)"
  using assms by simp

lemma step_done_ok:
  assumes "step e c w = Some w'" and "done_ok w"
  shows "done_ok w'"
proof -
  from assms(1) obtain p' where r: "fst c < length (procs w)"
    and st: "stmt e (fst c) (snd c) (list_all at_barrier (procs w)) (net w) (procs w ! fst c)
          = Some (p', net w')"
    and upd: "procs w' = (procs w)[fst c := p']"
    by (rule step_elim)
  note b = stmt_barrier[OF st]
  have sub: "set (procs w') \<subseteq> insert p' (set (procs w))"
    unfolding upd by (rule set_update_subset_insert)
  show ?thesis
  proof (cases "list_all at_barrier (procs w)")
    case True
    then have "at_barrier (procs w ! fst c)" using r by (simp add: list_all_length)
    with b have "at_barrier p'" by simp
    with True sub have "list_all at_barrier (procs w')" by (auto simp: list_all_iff)
    then show ?thesis by (simp add: done_ok_def)
  next
    case False
    with assms(2) have "\<forall>p \<in> set (procs w). pc p \<noteq> L_done" by (auto simp: done_ok_def)
    moreover from False b have "pc p' \<noteq> L_done" by auto
    ultimately have "\<forall>p \<in> set (procs w'). pc p \<noteq> L_done" using sub by auto
    then show ?thesis by (simp add: done_ok_def)
  qed
qed

lemma step_net_ok:
  assumes st: "step e c w = Some w'" and i: "inv e w" and pos: "0 < comm_size e"
  shows "net_ok e w'"
proof -
  define M where "M = comm_size e - 1"
  from st obtain p' where rs: "fst c < comm_size e" and rl: "fst c < length (procs w)"
    and sm: "stmt e (fst c) (snd c) (list_all at_barrier (procs w)) (net w) (procs w ! fst c)
          = Some (p', net w')"
    and upd: "procs w' = (procs w)[fst c := p']"
    by (rule step_elim)
  note nth = step_nth[OF upd rl]
  from i have nk: "mset (net w) + image_mset (\<lambda>x. (fst x, M, snd x)) (mset (received (procs w ! M)))
      = image_mset (\<lambda>r. (r, M, worker_data e r)) (mset_set (senders e w))"
    by (simp add: inv_def net_ok_def M_def)
  show ?thesis
  proof (cases "fst c < M")
    case True
    with i have wk: "worker_ok e (fst c) (procs w ! fst c)" by (simp add: inv_def M_def)
    note eff = stmt_worker_net[OF sm wk]
    have mst: "procs w' ! M = procs w ! M" using True nth by simp
    show ?thesis
    proof (cases "pc (procs w ! fst c) = W_send")
      case s: True
      with eff have n': "net w' = net w @ [(fst c, M, worker_data e (fst c))]"
        and hs: "\<not> has_sent (procs w ! fst c)" "has_sent p'" by (simp_all add: M_def)
      have "senders e w' = insert (fst c) (senders e w)"
        using True hs nth by (auto simp: senders_def M_def)
      moreover have "fst c \<notin> senders e w" using hs by (simp add: senders_def)
      ultimately have "mset_set (senders e w') = add_mset (fst c) (mset_set (senders e w))"
        using finite_senders[of e w] by simp
      with nk n' mst show ?thesis by (simp add: net_ok_def M_def)
    next
      case s: False
      with eff have n': "net w' = net w" and hs: "has_sent p' = has_sent (procs w ! fst c)"
        by simp_all
      have "senders e w' = senders e w" using hs nth by (auto simp: senders_def)
      with nk n' mst show ?thesis by (simp add: net_ok_def M_def)
    qed
  next
    case False
    with rs have rM: "fst c = M" by (simp add: M_def)
    with i have mk: "master_ok e (procs w ! fst c)" by (simp add: inv_def M_def)
    note eff = stmt_master_net[OF sm mk]
    have sd: "senders e w' = senders e w" using rM nth by (auto simp: senders_def M_def)
    have mst: "procs w' ! M = p'" using rM nth by simp
    show ?thesis
    proof (cases "pc (procs w ! fst c) = M_recv")
      case True
      with eff obtain m where m: "m \<in> set (net w)" "msg_dst m = M"
        "net w' = remove1 m (net w)"
        "received p' = received (procs w ! M) @ [(msg_src m, msg_payload m)]"
        using rM by auto
      have mm: "(msg_src m, M, msg_payload m) = m"
        using m(2) by (cases m) (simp add: msg_src_def msg_dst_def msg_payload_def)
      have a: "mset (net w') + {#m#} = mset (net w)"
        using m(1,3) by simp
      have "mset (net w') + image_mset (\<lambda>x. (fst x, M, snd x)) (mset (received p'))
          = (mset (net w') + {#m#})
            + image_mset (\<lambda>x. (fst x, M, snd x)) (mset (received (procs w ! M)))"
        using m(4) mm by simp
      also have "\<dots> = image_mset (\<lambda>r. (r, M, worker_data e r)) (mset_set (senders e w))"
        unfolding a by (rule nk)
      finally show ?thesis using mst sd by (simp add: net_ok_def M_def)
    next
      case False
      with eff have "net w' = net w" "received p' = received (procs w ! M)" using rM by simp_all
      with nk mst sd show ?thesis by (simp add: net_ok_def M_def)
    qed
  qed
qed

lemma inv_step:
  assumes st: "step e c w = Some w'" and i: "inv e w" and pos: "0 < comm_size e"
  shows "inv e w'"
proof -
  from st obtain p' where rs: "fst c < comm_size e" and rl: "fst c < length (procs w)"
    and sm: "stmt e (fst c) (snd c) (list_all at_barrier (procs w)) (net w) (procs w ! fst c)
          = Some (p', net w')"
    and upd: "procs w' = (procs w)[fst c := p']"
    by (rule step_elim)
  note nth = step_nth[OF upd rl]
  have len: "length (procs w') = comm_size e" using i upd by (simp add: inv_def)
  have wk: "worker_ok e q (procs w' ! q)" if q: "q < comm_size e - 1" for q
  proof (cases "q = fst c")
    case True
    with q i have "worker_ok e (fst c) (procs w ! fst c)" by (simp add: inv_def)
    from stmt_worker_ok[OF sm _ this] q True nth show ?thesis by simp
  next
    case False
    with q i nth show ?thesis by (simp add: inv_def)
  qed
  have mk: "master_ok e (procs w' ! (comm_size e - 1))"
  proof (cases "comm_size e - 1 = fst c")
    case True
    with i have "master_ok e (procs w ! fst c)" by (simp add: inv_def)
    from stmt_master_ok[OF sm _ this] True nth show ?thesis by simp
  next
    case False
    with i nth show ?thesis by (simp add: inv_def)
  qed
  from i have "done_ok w" by (simp add: inv_def)
  with len wk mk step_net_ok[OF st i pos] step_done_ok[OF st] show ?thesis
    by (simp add: inv_def)
qed

lemma inv_init:
  assumes "0 < comm_size e"
  shows "inv e (init e g0)"
proof -
  have "senders e (init e g0) = {}"
    by (auto simp: senders_def init_def proc0_def has_sent_def)
  moreover have "done_ok (init e g0)"
    by (auto simp: done_ok_def init_def proc0_def)
  ultimately show ?thesis using assms
    by (simp add: inv_def net_ok_def)
      (simp add: init_def proc0_def worker_ok_def master_ok_def has_sent_def at_barrier_def)
qed

lemma inv_exec:
  "exec e cs w = Some w' \<Longrightarrow> inv e w \<Longrightarrow> 0 < comm_size e \<Longrightarrow> inv e w'"
proof (induction cs arbitrary: w)
  case Nil
  then show ?case by simp
next
  case (Cons c cs)
  then show ?case by (auto split: option.splits dest: inv_step)
qed

lemma exec_append:
  "exec e (cs @ ds) w = (case exec e cs w of None \<Rightarrow> None | Some w' \<Rightarrow> exec e ds w')"
  by (induction cs arbitrary: w) (auto split: option.splits)

subsection \<open>Every run is finite\<close>

lemma step_total:
  assumes "step e c w = Some w'"
  shows "total e w' < total e w"
proof -
  from assms obtain p' where rl: "fst c < length (procs w)"
    and sm: "stmt e (fst c) (snd c) (list_all at_barrier (procs w)) (net w) (procs w ! fst c)
          = Some (p', net w')"
    and upd: "procs w' = (procs w)[fst c := p']"
    by (rule step_elim)
  let ?xs = "map (remaining e) (procs w)"
  have lt: "remaining e p' < ?xs ! fst c" using stmt_remaining[OF sm] rl by simp
  have "?xs ! fst c \<le> sum_list ?xs"
    using rl by (intro member_le_sum_list) simp_all
  moreover have "map (remaining e) (procs w') = ?xs[fst c := remaining e p']"
    unfolding upd by (simp add: map_update)
  then have "total e w' = sum_list ?xs + remaining e p' - ?xs ! fst c"
    unfolding total_def using rl by (simp add: sum_list_update)
  ultimately show ?thesis using lt unfolding total_def by linarith
qed

lemma exec_total:
  "exec e cs w = Some w' \<Longrightarrow> length cs + total e w' \<le> total e w"
proof (induction cs arbitrary: w)
  case Nil
  then show ?case by simp
next
  case (Cons c cs)
  then obtain w1 where s: "step e c w = Some w1" and x: "exec e cs w1 = Some w'"
    by (auto split: option.splits)
  from Cons.IH[OF x] step_total[OF s] show ?case by simp
qed

lemma total_init: "total e (init e g0) = comm_size e * (3 * (comm_size e - 1) + 9)"
  by (simp add: total_def init_def proc0_def remaining_def comp_def sum_list_triv)

subsection \<open>No reachable world is stuck before every process has finished\<close>

lemma stmt_free:
  assumes "pc p \<noteq> W_sending" "pc p \<noteq> M_recv" "pc p \<noteq> L_barrier" "pc p \<noteq> L_done"
  shows "\<exists>x. stmt e r s a nt p = Some x"
  by (cases "pc p") (use assms in \<open>auto simp: stmt_def split: prod.splits\<close>)

lemma step_of_stmt:
  assumes "r < comm_size e" and "r < length (procs w)"
    and "stmt e r s (list_all at_barrier (procs w)) (net w) (procs w ! r) = Some x"
  shows "\<exists>w'. step e (r, s) w = Some w'"
  using assms by (cases x) (simp add: step_def)

lemma inv_count:
  assumes "inv e w" and "\<forall>r < comm_size e - 1. has_sent (procs w ! r)"
  shows "length (net w) + length (received (procs w ! (comm_size e - 1))) = comm_size e - 1"
    and "\<forall>m \<in> set (net w). msg_dst m = comm_size e - 1"
proof -
  have s: "senders e w = {..<comm_size e - 1}" using assms(2) by (auto simp: senders_def)
  from assms(1) have nk: "mset (net w) +
       image_mset (\<lambda>x. (fst x, comm_size e - 1, snd x))
         (mset (received (procs w ! (comm_size e - 1)))) =
     image_mset (\<lambda>r. (r, comm_size e - 1, worker_data e r)) (mset_set {..<comm_size e - 1})"
    by (simp add: inv_def net_ok_def s)
  from arg_cong[OF nk, of size]
  show "length (net w) + length (received (procs w ! (comm_size e - 1))) = comm_size e - 1"
    by simp
  show "\<forall>m \<in> set (net w). msg_dst m = comm_size e - 1"
  proof
    fix m assume "m \<in> set (net w)"
    then have "m \<in># mset (net w) +
       image_mset (\<lambda>x. (fst x, comm_size e - 1, snd x))
         (mset (received (procs w ! (comm_size e - 1))))" by simp
    then have "m \<in># image_mset (\<lambda>r. (r, comm_size e - 1, worker_data e r))
        (mset_set {..<comm_size e - 1})" unfolding nk .
    then show "msg_dst m = comm_size e - 1" by (auto simp: msg_dst_def)
  qed
qed

lemma step_enabled:
  assumes i: "inv e w" and pos: "0 < comm_size e" and nf: "\<not> finished w"
  shows "\<exists>c w'. step e c w = Some w'"
proof -
  define M where "M = comm_size e - 1"
  define a where "a = list_all at_barrier (procs w)"
  have len: "length (procs w) = comm_size e" using i by (simp add: inv_def)
  have en: "\<exists>c w'. step e c w = Some w'"
    if "r < comm_size e" and "stmt e r s a (net w) (procs w ! r) = Some x" for r s x
    using step_of_stmt[of r e w s x] that len unfolding a_def by auto
  show ?thesis
  proof (cases "\<exists>r<comm_size e. pc (procs w ! r) \<notin> {W_sending, M_recv, L_barrier, L_done}")
    case True
    then obtain r where r: "r < comm_size e"
      and "pc (procs w ! r) \<notin> {W_sending, M_recv, L_barrier, L_done}" by auto
    with stmt_free[of "procs w ! r" e r 0 a "net w"]
    obtain x where "stmt e r 0 a (net w) (procs w ! r) = Some x" by auto
    with r show ?thesis by (rule en)
  next
    case False
    then have all: "pc (procs w ! r) \<in> {W_sending, M_recv, L_barrier, L_done}"
      if "r < comm_size e" for r using that by auto
    have wk: "pc (procs w ! r) \<in> {W_sending, L_barrier, L_done}" if "r < M" for r
    proof -
      from that i have "worker_ok e r (procs w ! r)" by (simp add: inv_def M_def)
      then have "pc (procs w ! r) \<noteq> M_recv" by (auto simp: worker_ok_def)
      with all[of r] that show ?thesis by (auto simp: M_def)
    qed
    then have hs: "\<forall>r < comm_size e - 1. has_sent (procs w ! r)"
      by (auto simp: has_sent_def M_def)
    note cnt = inv_count[OF i hs]
    have mk: "master_ok e (procs w ! M)" using i by (simp add: inv_def M_def)
    have Ml: "M < comm_size e" using pos by (simp add: M_def)
    show ?thesis
    proof (cases "pc (procs w ! M) = M_recv")
      case True
      with mk have "length (received (procs w ! M)) < M" by (simp add: master_ok_def M_def)
      with cnt(1) have "net w \<noteq> []" by (auto simp: M_def)
      then obtain m where m: "m \<in> set (net w)" by (cases "net w") auto
      with cnt(2) have "msg_dst m = M" by (simp add: M_def)
      with m have "\<exists>m' \<in> set (net w). msg_src m' = msg_src m \<and> msg_dst m' = M"
        by blast
      then have "find (\<lambda>m'. msg_src m' = msg_src m \<and> msg_dst m' = M) (net w) \<noteq> None"
        unfolding find_None_iff by blast
      then obtain m' where "find (\<lambda>m'. msg_src m' = msg_src m \<and> msg_dst m' = M) (net w) = Some m'"
        by auto
      with True have "\<exists>x. stmt e M (msg_src m) a (net w) (procs w ! M) = Some x"
        by (simp add: stmt_def)
      with Ml en show ?thesis by blast
    next
      case False
      with all[OF Ml] mk have mb: "at_barrier (procs w ! M)"
        by (auto simp: master_ok_def at_barrier_def)
      with mk have "length (received (procs w ! M)) = M"
        by (auto simp: master_ok_def at_barrier_def M_def)
      with cnt(1) have nil: "net w = []" by (simp add: M_def)
      show ?thesis
      proof (cases "\<exists>r<M. pc (procs w ! r) = W_sending")
        case True
        then obtain r where r: "r < M" and "pc (procs w ! r) = W_sending" by auto
        with nil have "\<exists>x. stmt e r 0 a (net w) (procs w ! r) = Some x"
          by (simp add: stmt_def)
        moreover from r have "r < comm_size e" by (simp add: M_def)
        ultimately show ?thesis using en by blast
      next
        case False
        with wk have "at_barrier (procs w ! r)" if "r < M" for r
          using that by (fastforce simp: at_barrier_def)
        with mb have ab: "at_barrier (procs w ! r)" if "r < comm_size e" for r
          using that by (cases "r = M") (auto simp: M_def)
        then have a: "a" unfolding a_def by (simp add: list_all_length len)
        from nf obtain r where r: "r < comm_size e" and "pc (procs w ! r) \<noteq> L_done"
          by (auto simp: finished_def list_all_length len)
        with ab[of r] have "pc (procs w ! r) = L_barrier"
          by (simp add: at_barrier_def)
        with a have "\<exists>x. stmt e r 0 a (net w) (procs w ! r) = Some x"
          by (simp add: stmt_def)
        with r en show ?thesis by blast
      qed
    qed
  qed
qed

lemma run_to_end:
  assumes "inv e w" and "0 < comm_size e"
  shows "\<exists>cs w'. exec e cs w = Some w' \<and> finished w'"
  using assms
proof (induction "total e w" arbitrary: w rule: less_induct)
  case less
  show ?case
  proof (cases "finished w")
    case True
    then have "exec e [] w = Some w \<and> finished w" by simp
    then show ?thesis by blast
  next
    case False
    from step_enabled[OF less.prems False] obtain c w1 where s: "step e c w = Some w1"
      by blast
    from less.hyps[OF step_total[OF s] inv_step[OF s less.prems] less.prems(2)]
    obtain cs w' where "exec e cs w1 = Some w'" "finished w'" by blast
    with s have "exec e (c # cs) w = Some w' \<and> finished w'" by simp
    then show ?thesis by blast
  qed
qed

subsection \<open>Finished worlds\<close>

lemma finished_worker:
  assumes "inv e w" and "finished w" and "r < comm_size e - 1"
  shows "sent (procs w ! r) = [(comm_size e - 1, worker_data e r)]"
    and "data (procs w ! r) = worker_data e r"
    and "received (procs w ! r) = []"
    and "out (procs w ! r) = [Worker_line r (length (worker_data e r))]"
proof -
  from assms have "pc (procs w ! r) = L_done"
    by (simp add: inv_def finished_def list_all_length)
  moreover from assms have "worker_ok e r (procs w ! r)" by (simp add: inv_def)
  ultimately show "sent (procs w ! r) = [(comm_size e - 1, worker_data e r)]"
    and "data (procs w ! r) = worker_data e r"
    and "received (procs w ! r) = []"
    and "out (procs w ! r) = [Worker_line r (length (worker_data e r))]"
    by (simp_all add: worker_ok_def has_sent_def at_barrier_def)
qed

lemma finished_master:
  assumes i: "inv e w" and f: "finished w" and pos: "0 < comm_size e"
  shows "sent (procs w ! (comm_size e - 1)) = []"
    and "length (received (procs w ! (comm_size e - 1))) = comm_size e - 1"
    and "out (procs w ! (comm_size e - 1)) = map master_line (received (procs w ! (comm_size e - 1)))"
    and "net w = []"
    and "mset (received (procs w ! (comm_size e - 1)))
          = mset (map (\<lambda>r. (r, worker_data e r)) [0..<comm_size e - 1])"
proof -
  define M where "M = comm_size e - 1"
  have fin: "pc (procs w ! r) = L_done" if "r < comm_size e" for r
    using i f that by (simp add: inv_def finished_def list_all_length)
  from i have mk: "master_ok e (procs w ! M)" by (simp add: inv_def M_def)
  from fin[of M] pos have pd: "pc (procs w ! M) = L_done" by (simp add: M_def)
  with mk show "sent (procs w ! (comm_size e - 1)) = []"
    and len: "length (received (procs w ! (comm_size e - 1))) = comm_size e - 1"
    and "out (procs w ! (comm_size e - 1)) = map master_line (received (procs w ! (comm_size e - 1)))"
    by (simp_all add: master_ok_def M_def)
  have hs: "\<forall>r < comm_size e - 1. has_sent (procs w ! r)"
    using fin by (simp add: has_sent_def)
  from inv_count(1)[OF i hs] len show nil: "net w = []" by simp
  have s: "senders e w = {0..<M}" using hs by (auto simp: senders_def M_def)
  from i have "image_mset (\<lambda>x. (fst x, M, snd x)) (mset (received (procs w ! M)))
      = image_mset (\<lambda>r. (r, M, worker_data e r)) (mset_set {0..<M})"
    using nil s unfolding M_def by (simp add: inv_def net_ok_def)
  from arg_cong[OF this, of "image_mset (\<lambda>m. (fst m, snd (snd m)))"]
  have "mset (received (procs w ! M)) = image_mset (\<lambda>r. (r, worker_data e r)) (mset_set {0..<M})"
    by (simp add: multiset.map_comp comp_def)
  then show "mset (received (procs w ! (comm_size e - 1)))
          = mset (map (\<lambda>r. (r, worker_data e r)) [0..<comm_size e - 1])"
    by (simp add: M_def)
qed

lemma sent_worker:
  assumes "inv e w" and "r < comm_size e - 1"
  shows "\<forall>m \<in> set (sent (procs w ! r)). m = (comm_size e - 1, worker_data e r)"
proof -
  from assms have "worker_ok e r (procs w ! r)" by (simp add: inv_def)
  then show ?thesis by (cases "has_sent (procs w ! r)") (simp_all add: worker_ok_def)
qed

lemma worker_data_eager [simp]:
  "worker_data (e\<lparr>eager_send := b\<rparr>) r = worker_data e r"
  by (simp add: worker_data_def)

section \<open>The claims about the Master-Worker example\<close>

text \<open>
  Claim C9. Take any run of the script with at least two processes: any schedule, any
  initial generator states, any buffering policy of the MPI library. The run is finite
  (its length is bounded in terms of the number of processes) and it can always be
  continued until every process has passed the barrier. Once every process has passed
  the barrier: each worker (ranks \<open>0\<close> to \<open>size - 2\<close>) has sent exactly one message, to
  rank \<open>size - 1\<close>, carrying its array \<open>data\<close>, and has received nothing; the master has
  sent nothing and has performed exactly \<open>size - 1\<close> receives; the messages it received
  are, up to their order, exactly one per worker, each with that worker's rank as source
  and that worker's array as content; no message is left in flight; and the lines the
  master printed are, up to their order, one per worker, giving the worker's rank and
  the length of the array that worker generated.
\<close>

theorem master_worker_exchange:
  assumes "2 \<le> comm_size e" and "exec e cs (init e g0) = Some w"
  shows "length cs \<le> comm_size e * (3 * comm_size e + 6) \<and>
    (\<exists>ds w'. exec e (cs @ ds) (init e g0) = Some w' \<and> finished w') \<and>
    (finished w \<longrightarrow>
       (\<forall>r < comm_size e - 1.
          sent (procs w ! r) = [(comm_size e - 1, data (procs w ! r))] \<and>
          received (procs w ! r) = []) \<and>
       sent (procs w ! (comm_size e - 1)) = [] \<and>
       length (received (procs w ! (comm_size e - 1))) = comm_size e - 1 \<and>
       mset (received (procs w ! (comm_size e - 1))) =
         mset (map (\<lambda>r. (r, data (procs w ! r))) [0..<comm_size e - 1]) \<and>
       net w = [] \<and>
       mset (out (procs w ! (comm_size e - 1))) =
         mset (map (\<lambda>r. Master_line r (length (data (procs w ! r)))) [0..<comm_size e - 1]))"
proof -
  from assms(1) have pos: "0 < comm_size e" by simp
  have i: "inv e w" using inv_exec[OF assms(2) inv_init[OF pos] pos] .
  have "total e (init e g0) = comm_size e * (3 * comm_size e + 6)"
    unfolding total_init using pos by (cases "comm_size e") simp_all
  with exec_total[OF assms(2)]
  have bound: "length cs \<le> comm_size e * (3 * comm_size e + 6)" by simp
  from run_to_end[OF i pos] obtain ds w' where "exec e ds w = Some w'" "finished w'" by blast
  with assms(2) have ext: "\<exists>ds w'. exec e (cs @ ds) (init e g0) = Some w' \<and> finished w'"
    by (auto simp: exec_append)
  have fin: "(\<forall>r < comm_size e - 1.
          sent (procs w ! r) = [(comm_size e - 1, data (procs w ! r))] \<and>
          received (procs w ! r) = []) \<and>
       sent (procs w ! (comm_size e - 1)) = [] \<and>
       length (received (procs w ! (comm_size e - 1))) = comm_size e - 1 \<and>
       mset (received (procs w ! (comm_size e - 1))) =
         mset (map (\<lambda>r. (r, data (procs w ! r))) [0..<comm_size e - 1]) \<and>
       net w = [] \<and>
       mset (out (procs w ! (comm_size e - 1))) =
         mset (map (\<lambda>r. Master_line r (length (data (procs w ! r)))) [0..<comm_size e - 1])"
    if f: "finished w"
  proof -
    note wk = finished_worker[OF i f]
    note ms = finished_master[OF i f pos]
    have d: "map (\<lambda>r. (r, worker_data e r)) [0..<comm_size e - 1]
        = map (\<lambda>r. (r, data (procs w ! r))) [0..<comm_size e - 1]"
      using wk(2) by simp
    have "mset (out (procs w ! (comm_size e - 1)))
        = image_mset master_line (mset (received (procs w ! (comm_size e - 1))))"
      unfolding ms(3) by simp
    also have "\<dots> = mset (map (\<lambda>r. Master_line r (length (data (procs w ! r))))
        [0..<comm_size e - 1])"
      unfolding ms(5) d by (simp add: master_line_def comp_def multiset.map_comp)
    finally have o: "mset (out (procs w ! (comm_size e - 1))) =
         mset (map (\<lambda>r. Master_line r (length (data (procs w ! r)))) [0..<comm_size e - 1])" .
    from wk(1,2,3) ms(1,2,4) ms(5)[unfolded d] o show ?thesis by simp
  qed
  from bound ext fin show ?thesis by blast
qed

text \<open>The run \<open>example_sched1\<close> of three processes, at which the theorem applies.\<close>

theorem master_worker_exchange_witness:
  "2 \<le> comm_size example_env \<and> exec example_env example_sched1 (init example_env (\<lambda>r. 40 + r)) = Some example_end1 \<and>
   finished example_end1 \<and>
   length example_sched1 \<le> 45 \<and>
   sent (procs example_end1 ! 0) = [(2, data (procs example_end1 ! 0))] \<and>
   sent (procs example_end1 ! 1) = [(2, data (procs example_end1 ! 1))] \<and>
   length (received (procs example_end1 ! 2)) = 2 \<and>
   mset (received (procs example_end1 ! 2)) =
     mset [(0, data (procs example_end1 ! 0)), (1, data (procs example_end1 ! 1))] \<and>
   mset (out (procs example_end1 ! 2)) =
     mset [Master_line 0 (length (data (procs example_end1 ! 0))),
           Master_line 1 (length (data (procs example_end1 ! 1)))]"
proof -
  have s: "2 \<le> comm_size example_env" by (simp add: example_env_def)
  have r: "exec example_env example_sched1 (init example_env (\<lambda>r. 40 + r)) = Some example_end1" by code_simp
  have f: "finished example_end1" by code_simp
  have n: "comm_size example_env = 3" by (simp add: example_env_def)
  have u: "[0..<2] = [0, Suc 0]" by (simp add: upt_rec)
  from master_worker_exchange[OF s r] f
  have "length example_sched1 \<le> comm_size example_env * (3 * comm_size example_env + 6) \<and>
    (\<forall>r < comm_size example_env - 1.
          sent (procs example_end1 ! r) = [(comm_size example_env - 1, data (procs example_end1 ! r))]) \<and>
       length (received (procs example_end1 ! (comm_size example_env - 1))) = comm_size example_env - 1 \<and>
       mset (received (procs example_end1 ! (comm_size example_env - 1))) =
         mset (map (\<lambda>r. (r, data (procs example_end1 ! r))) [0..<comm_size example_env - 1]) \<and>
       mset (out (procs example_end1 ! (comm_size example_env - 1))) =
         mset (map (\<lambda>r. Master_line r (length (data (procs example_end1 ! r))))
           [0..<comm_size example_env - 1])"
    by blast
  with s r f show ?thesis unfolding n by (simp add: u)
qed

text \<open>
  Claim C10. Take two runs of the script with the same number of processes and the same
  NumPy, whatever their schedules, their initial generator states and the buffering
  policy of the MPI library. Every message that worker \<open>r\<close> sends in either run is the
  message \<open>worker_data e r\<close> addressed to rank \<open>size - 1\<close>: a function of the rank and
  of NumPy's generator alone, because the worker seeds the generator with its rank
  before it draws. When both runs have finished, worker \<open>r\<close> has sent the same single
  message in both, and its array (length and contents) is the same in both.
\<close>

theorem worker_message_deterministic:
  assumes "exec e cs1 (init e g1) = Some w1"
    and "exec (e\<lparr>eager_send := b\<rparr>) cs2 (init (e\<lparr>eager_send := b\<rparr>) g2) = Some w2"
    and "r < comm_size e - 1"
  shows "(\<forall>m \<in> set (sent (procs w1 ! r)) \<union> set (sent (procs w2 ! r)).
            m = (comm_size e - 1, worker_data e r)) \<and>
         (finished w1 \<and> finished w2 \<longrightarrow>
            sent (procs w1 ! r) = [(comm_size e - 1, worker_data e r)] \<and>
            sent (procs w2 ! r) = sent (procs w1 ! r) \<and>
            data (procs w2 ! r) = data (procs w1 ! r))"
proof -
  let ?e = "e\<lparr>eager_send := b\<rparr>"
  from assms(3) have pos: "0 < comm_size e" and pos': "0 < comm_size ?e" by simp_all
  have i1: "inv e w1" using inv_exec[OF assms(1) inv_init[OF pos] pos] .
  have i2: "inv ?e w2" using inv_exec[OF assms(2) inv_init[OF pos'] pos'] .
  from assms(3) have r': "r < comm_size ?e - 1" by simp
  from sent_worker[OF i1 assms(3)] sent_worker[OF i2 r']
  have a: "\<forall>m \<in> set (sent (procs w1 ! r)) \<union> set (sent (procs w2 ! r)).
            m = (comm_size e - 1, worker_data e r)" by auto
  have b: "sent (procs w1 ! r) = [(comm_size e - 1, worker_data e r)] \<and>
            sent (procs w2 ! r) = sent (procs w1 ! r) \<and>
            data (procs w2 ! r) = data (procs w1 ! r)" if "finished w1" "finished w2"
    using finished_worker(1,2)[OF i1 that(1) assms(3)]
      finished_worker(1,2)[OF i2 that(2) r'] by simp
  from a b show ?thesis by blast
qed

text \<open>Two runs of three processes that differ in schedule, initial generator states
  and buffering policy, at which the theorem applies.\<close>

theorem worker_message_deterministic_witness:
  "exec example_env example_sched1 (init example_env (\<lambda>r. 40 + r)) = Some example_end1 \<and>
   exec (example_env\<lparr>eager_send := \<lambda>d. True\<rparr>) example_sched2
     (init (example_env\<lparr>eager_send := \<lambda>d. True\<rparr>) (\<lambda>r. 7)) = Some example_end2 \<and>
   (1::nat) < comm_size example_env - 1 \<and> finished example_end1 \<and> finished example_end2 \<and>
   sent (procs example_end1 ! 1) = [(2, [39, 44, 49])] \<and>
   sent (procs example_end2 ! 1) = sent (procs example_end1 ! 1) \<and>
   data (procs example_end2 ! 1) = data (procs example_end1 ! 1)"
proof -
  have r1: "exec example_env example_sched1 (init example_env (\<lambda>r. 40 + r)) = Some example_end1" by code_simp
  have r2: "exec (example_env\<lparr>eager_send := \<lambda>d. True\<rparr>) example_sched2
     (init (example_env\<lparr>eager_send := \<lambda>d. True\<rparr>) (\<lambda>r. 7)) = Some example_end2" by code_simp
  have lt: "(1::nat) < comm_size example_env - 1" by (simp add: example_env_def)
  have f: "finished example_end1" "finished example_end2" by code_simp+
  have wd: "worker_data example_env 1 = [39, 44, 49]" by code_simp
  have n: "comm_size example_env - 1 = 2" by (simp add: example_env_def)
  from worker_message_deterministic[OF r1 r2 lt] f
  have "sent (procs example_end1 ! 1) = [(comm_size example_env - 1, worker_data example_env 1)] \<and>
        sent (procs example_end2 ! 1) = sent (procs example_end1 ! 1) \<and>
        data (procs example_end2 ! 1) = data (procs example_end1 ! 1)" by blast
  with r1 r2 lt f show ?thesis unfolding wd n by simp
qed

end
